theory Spec2Isabelle
  imports Main "HOL-Library.Word" "HOL-Library.Signed_Division"
begin

unbundle bit_operations_syntax

section \<open>Constants and the transport stream header\<close>

type_synonym byte = "8 word"

text \<open>
  Undefined behaviour of the C program (a read or write outside an array) and
  \<^verbatim>\<open>exit\<close> are results of the model, not unspecified values.
\<close>

datatype error = OutOfBounds int | Exit int

definition TS_LEN :: nat where
  "TS_LEN = 188"

definition TS_SYNC :: byte where
  "TS_SYNC = 0x47"

definition PID_NULL :: "32 word" where
  "PID_NULL = 8191"

text \<open>The size of \<^verbatim>\<open>msgbuf\<close>, the most that \<^verbatim>\<open>recvfrom\<close> stores in it.\<close>

definition MSGBUFSIZE :: nat where
  "MSGBUFSIZE = 1400"

text \<open>
  \<^verbatim>\<open>TSHDR_t\<close>: nine bit-fields of \<^verbatim>\<open>unsigned char\<close>, each with the width the
  declaration gives it.
\<close>

record TSHDR_t =
  sync :: "8 word"
  pidH :: "5 word"
  tp :: "1 word"
  pusi :: "1 word"
  tei :: "1 word"
  pidL :: "8 word"
  cc :: "4 word"
  afc :: "2 word"
  tfc :: "2 word"

text \<open>
  \<^verbatim>\<open>return p->pidL | (p->pidH << 8);\<close> Both fields are promoted to \<^verbatim>\<open>int\<close>,
  the result is converted to \<^verbatim>\<open>unsigned int\<close>.
\<close>

definition get_pid :: "TSHDR_t \<Rightarrow> 32 word" where
  "get_pid p = ucast (pidL p) OR push_bit 8 (ucast (pidH p))"

definition check_sync :: "TSHDR_t \<Rightarrow> bool" where
  "check_sync p = (TS_SYNC = sync p)"

text \<open>
  \<^verbatim>\<open>new_pid &= 0x1FFF; p->pidL = new_pid & 0xFF; p->pidH = new_pid >> 8;\<close>
  An assignment to a bit-field keeps the low bits that fit its width.
\<close>

definition set_pid :: "TSHDR_t \<Rightarrow> 32 word \<Rightarrow> TSHDR_t" where
  "set_pid p new_pid =
     (let new_pid = new_pid AND 0x1FFF;
          p = p\<lparr>pidL := ucast (new_pid AND 0xFF)\<rparr>;
          p = p\<lparr>pidH := ucast (drop_bit 8 new_pid)\<rparr>
      in p)"

text \<open>
  The cast \<^verbatim>\<open>(TSHDR_t*)ts_buf\<close> reads four bytes of the buffer as a header.
  The layout is the one of the compilers the program is built with (GCC and
  MSVC on little-endian targets, which \<^verbatim>\<open>main\<close> checks only by
  \<^verbatim>\<open>sizeof(TSHDR_t) == 4\<close>): bit-fields fill each byte from its least
  significant bit, in declaration order.
\<close>

definition hdr_of_bytes :: "byte \<Rightarrow> byte \<Rightarrow> byte \<Rightarrow> byte \<Rightarrow> TSHDR_t" where
  "hdr_of_bytes b0 b1 b2 b3 =
     \<lparr>sync = b0,
      pidH = ucast b1,
      tp = ucast (drop_bit 5 b1),
      pusi = ucast (drop_bit 6 b1),
      tei = ucast (drop_bit 7 b1),
      pidL = b2,
      cc = ucast b3,
      afc = ucast (drop_bit 4 b3),
      tfc = ucast (drop_bit 6 b3)\<rparr>"

definition hdr_byte1 :: "TSHDR_t \<Rightarrow> byte" where
  "hdr_byte1 h =
     ucast (pidH h) OR push_bit 5 (ucast (tp h)) OR push_bit 6 (ucast (pusi h))
       OR push_bit 7 (ucast (tei h))"

definition hdr_byte3 :: "TSHDR_t \<Rightarrow> byte" where
  "hdr_byte3 h =
     ucast (cc h) OR push_bit 4 (ucast (afc h)) OR push_bit 6 (ucast (tfc h))"

definition bytes_of_hdr :: "TSHDR_t \<Rightarrow> byte list" where
  "bytes_of_hdr h = [sync h, hdr_byte1 h, pidL h, hdr_byte3 h]"


section \<open>The buffer and the header stored in it\<close>

text \<open>
  A buffer is the list of its bytes, a pointer into it is an offset. Reading or
  writing a header through \<^verbatim>\<open>(TSHDR_t*)ts_buf\<close> needs its four bytes inside
  the buffer; anything else is undefined behaviour in C and \<open>OutOfBounds\<close> here.
\<close>

definition load_hdr :: "byte list \<Rightarrow> nat \<Rightarrow> error + TSHDR_t" where
  "load_hdr mem p =
     (if p + 4 \<le> length mem
      then Inr (hdr_of_bytes (mem ! p) (mem ! (p + 1)) (mem ! (p + 2)) (mem ! (p + 3)))
      else Inl (OutOfBounds (int p)))"

definition put_hdr :: "byte list \<Rightarrow> nat \<Rightarrow> TSHDR_t \<Rightarrow> byte list" where
  "put_hdr mem p h =
     mem[p := sync h, p + 1 := hdr_byte1 h, p + 2 := pidL h, p + 3 := hdr_byte3 h]"

definition store_hdr :: "byte list \<Rightarrow> nat \<Rightarrow> TSHDR_t \<Rightarrow> error + byte list" where
  "store_hdr mem p h =
     (if p + 4 \<le> length mem then Inr (put_hdr mem p h) else Inl (OutOfBounds (int p)))"

section \<open>Global variables\<close>

record globals =
  InputMCast :: string
  InputPort :: "16 word"
  OutputMCast :: string
  OutputPort :: "16 word"
  Pid2Patch :: "16 word list"
  Pid2PatchCount :: int

definition initial_globals :: globals where
  "initial_globals =
     \<lparr>InputMCast = ''239.1.2.3'', InputPort = 5000,
      OutputMCast = ''239.3.2.1'', OutputPort = 5000,
      Pid2Patch = replicate 100 0, Pid2PatchCount = 0\<rparr>"

section \<open>patch_ts\<close>

text \<open>
  The inner loop \<^verbatim>\<open>for (int i = 0; i < Pid2PatchCount; i++)\<close> of \<^verbatim>\<open>patch_ts\<close>.
  The fourth argument counts the iterations still to run. There is no
  \<^verbatim>\<open>break\<close> (it is commented out in the source): after a match the loop goes
  on with the header it has just written.
\<close>

fun pid_loop ::
  "globals \<Rightarrow> nat \<Rightarrow> nat \<Rightarrow> nat \<Rightarrow> byte list \<Rightarrow> int \<Rightarrow> error + (byte list \<times> int)" where
  "pid_loop g ts_buf i 0 mem n_patched = Inr (mem, n_patched)"
| "pid_loop g ts_buf i (Suc r) mem n_patched =
     (if i < length (Pid2Patch g) then
        (case load_hdr mem ts_buf of
           Inl e \<Rightarrow> Inl e
         | Inr h \<Rightarrow>
             if get_pid h = ucast (Pid2Patch g ! i) then
               (case store_hdr mem ts_buf (set_pid h PID_NULL) of
                  Inl e \<Rightarrow> Inl e
                | Inr mem' \<Rightarrow> pid_loop g ts_buf (Suc i) r mem' (n_patched + 1))
             else pid_loop g ts_buf (Suc i) r mem n_patched)
      else Inl (OutOfBounds (int i)))"

definition sync_error_msg :: string where
  "sync_error_msg = ''sync error !'' @ [CHR 0x0A]"

text \<open>
  The outer loop \<^verbatim>\<open>for (; n_ts > 0; n_ts--, ts_buf += TS_LEN)\<close>. \<^verbatim>\<open>continue\<close>
  runs the step expression, so a window without sync is skipped and the next
  one is looked at. What \<^verbatim>\<open>printf\<close> writes is collected in the last argument.
\<close>

fun ts_loop ::
  "globals \<Rightarrow> nat \<Rightarrow> nat \<Rightarrow> byte list \<Rightarrow> int \<Rightarrow> string list
     \<Rightarrow> error + (byte list \<times> int \<times> string list)" where
  "ts_loop g ts_buf 0 mem n_patched out = Inr (mem, n_patched, out)"
| "ts_loop g ts_buf (Suc n_ts) mem n_patched out =
     (case load_hdr mem ts_buf of
        Inl e \<Rightarrow> Inl e
      | Inr h \<Rightarrow>
          if \<not> check_sync h then
            ts_loop g (ts_buf + TS_LEN) n_ts mem n_patched (out @ [sync_error_msg])
          else
            (case pid_loop g ts_buf 0 (nat (Pid2PatchCount g)) mem n_patched of
               Inl e \<Rightarrow> Inl e
             | Inr (mem', n_patched') \<Rightarrow>
                 ts_loop g (ts_buf + TS_LEN) n_ts mem' n_patched' out))"

text \<open>
  \<^verbatim>\<open>int patch_ts(unsigned char* ts_buf, int n_ts)\<close>: the result is the buffer
  as the loop leaves it, the returned \<^verbatim>\<open>n_patched\<close> and the lines printed.
  The loop runs \<open>nat n_ts\<close> times: not at all for \<open>n_ts \<le> 0\<close>. The counter
  grows by at most \<^verbatim>\<open>Pid2PatchCount\<close> in a window, so with the seven windows
  that fit \<^verbatim>\<open>msgbuf\<close> and a filter of 100 entries it stays far from the range
  of \<^verbatim>\<open>int\<close> and is not cut to 32 bits here.
\<close>

definition patch_ts ::
  "globals \<Rightarrow> byte list \<Rightarrow> nat \<Rightarrow> int \<Rightarrow> error + (byte list \<times> int \<times> string list)" where
  "patch_ts g mem ts_buf n_ts = ts_loop g ts_buf (nat n_ts) mem 0 []"

section \<open>parse_args\<close>

text \<open>
  \<^verbatim>\<open>atoi\<close> of the C library is \<^verbatim>\<open>(int) strtol(s, NULL, 10)\<close>: white space,
  an optional sign, then decimal digits up to the first other character.
  \<^verbatim>\<open>strtol\<close> reads all the digits and gives \<^verbatim>\<open>LONG_MAX\<close> or \<^verbatim>\<open>LONG_MIN\<close> when
  the number does not fit \<^verbatim>\<open>long\<close>, which has 64 bits where the program is built
  with GCC; the conversion to \<^verbatim>\<open>int\<close> keeps the low 32 bits.
\<close>

definition isspace_c :: "char \<Rightarrow> bool" where
  "isspace_c c = (of_char c \<in> {32, 9, 10, 11, 12, 13 :: nat})"

definition isdigit_c :: "char \<Rightarrow> bool" where
  "isdigit_c c = (48 \<le> (of_char c :: nat) \<and> (of_char c :: nat) \<le> 57)"

fun digits_value :: "string \<Rightarrow> int \<Rightarrow> int" where
  "digits_value [] acc = acc"
| "digits_value (c # cs) acc =
     (if isdigit_c c then digits_value cs (acc * 10 + (of_char c - 48)) else acc)"

definition LONG_MAX :: int where
  "LONG_MAX = 2 ^ 63 - 1"

definition LONG_MIN :: int where
  "LONG_MIN = - (2 ^ 63)"

definition strtol10 :: "string \<Rightarrow> int" where
  "strtol10 s =
     (let v = (case dropWhile isspace_c s of
                 [] \<Rightarrow> 0
               | c # cs \<Rightarrow>
                   if c = CHR ''-'' then - digits_value cs 0
                   else if c = CHR ''+'' then digits_value cs 0
                   else digits_value (c # cs) 0)
      in if LONG_MAX < v then LONG_MAX else if v < LONG_MIN then LONG_MIN else v)"

definition atoi :: "string \<Rightarrow> int" where
  "atoi s = sint (word_of_int (strtol10 s) :: 32 word)"

text \<open>
  \<^verbatim>\<open>for (; arg < argc; ) Pid2Patch[Pid2PatchCount++] = atoi(argv[arg++]);\<close>
  over the arguments that are left. The source does not compare
  \<^verbatim>\<open>Pid2PatchCount\<close> with the size of the array.
\<close>

fun store_pids :: "string list \<Rightarrow> globals \<Rightarrow> error + globals" where
  "store_pids [] g = Inr g"
| "store_pids (a # as) g =
     (let i = Pid2PatchCount g in
      if 0 \<le> i \<and> i < int (length (Pid2Patch g)) then
        store_pids as
          (g\<lparr>Pid2Patch := (Pid2Patch g)[nat i := word_of_int (atoi a)],
             Pid2PatchCount := i + 1\<rparr>)
      else Inl (OutOfBounds i))"

text \<open>\<^verbatim>\<open>argc\<close> is the length of \<^verbatim>\<open>argv\<close>; fewer than five ends in \<^verbatim>\<open>exit(1)\<close>.\<close>

definition parse_args :: "string list \<Rightarrow> globals \<Rightarrow> error + globals" where
  "parse_args argv g =
     (if int (length argv) < 5 then Inl (Exit 1)
      else
        store_pids (drop 5 argv)
          (g\<lparr>InputMCast := argv ! 1,
             InputPort := word_of_int (atoi (argv ! 2)),
             OutputMCast := argv ! 3,
             OutputPort := word_of_int (atoi (argv ! 4))\<rparr>))"

section \<open>One turn of the processing loop of main\<close>

text \<open>
  Lines 320 to 322:
  \<^verbatim>\<open>n_ts = n_in / TS_LEN; ts_length = n_ts * TS_LEN; ts_offset = n_in - ts_length;\<close>
  with the division of C, which truncates. The result is \<open>(n_ts, ts_offset)\<close>.
\<close>

definition main_frame :: "int \<Rightarrow> int \<times> int" where
  "main_frame n_in =
     (let n_ts = n_in sdiv int TS_LEN;
          ts_length = n_ts * int TS_LEN;
          ts_offset = n_in - ts_length
      in (n_ts, ts_offset))"

record iteration =
  msgbuf_after :: "byte list"
  sent :: "byte list option"
  n_ts_of :: int
  ts_offset_of :: int
  patched_of :: int
  printed :: "string list"

text \<open>
  The body of \<^verbatim>\<open>while (1)\<close> after \<^verbatim>\<open>recvfrom\<close> has filled \<^verbatim>\<open>msgbuf\<close> and
  returned \<^verbatim>\<open>n_in\<close>. A negative \<^verbatim>\<open>n_in\<close> skips the turn and sends nothing.
  Otherwise \<^verbatim>\<open>patch_ts(msgbuf + ts_offset, n_ts)\<close> runs and \<^verbatim>\<open>sendto\<close> is handed
  the first \<^verbatim>\<open>n_in\<close> bytes of \<^verbatim>\<open>msgbuf\<close>. The running totals and the status line,
  which depends on the clock, are left out.
\<close>

definition main_iteration :: "globals \<Rightarrow> byte list \<Rightarrow> int \<Rightarrow> error + iteration" where
  "main_iteration g msgbuf n_in =
     (if n_in < 0 then
        Inr \<lparr>msgbuf_after = msgbuf, sent = None, n_ts_of = 0, ts_offset_of = 0,
             patched_of = 0, printed = []\<rparr>
      else
        (case main_frame n_in of
           (n_ts, ts_offset) \<Rightarrow>
             if ts_offset < 0 \<or> int (length msgbuf) < ts_offset then
               Inl (OutOfBounds ts_offset)
             else
               (case patch_ts g msgbuf (nat ts_offset) n_ts of
                  Inl e \<Rightarrow> Inl e
                | Inr (mem', n_patched, out) \<Rightarrow>
                    if int (length mem') < n_in then Inl (OutOfBounds n_in)
                    else
                      Inr \<lparr>msgbuf_after = mem', sent = Some (take (nat n_in) mem'),
                           n_ts_of = n_ts, ts_offset_of = ts_offset,
                           patched_of = n_patched, printed = out\<rparr>)))"

section \<open>Notions used to state the properties\<close>

text \<open>The header found at an offset that lies inside the buffer.\<close>

definition hdr_at :: "byte list \<Rightarrow> nat \<Rightarrow> TSHDR_t" where
  "hdr_at mem p = hdr_of_bytes (mem ! p) (mem ! (p + 1)) (mem ! (p + 2)) (mem ! (p + 3))"

text \<open>The filter set: the first \<^verbatim>\<open>Pid2PatchCount\<close> entries of \<^verbatim>\<open>Pid2Patch\<close>.\<close>

definition filter_set :: "globals \<Rightarrow> 16 word list" where
  "filter_set g = take (nat (Pid2PatchCount g)) (Pid2Patch g)"

definition in_filter :: "globals \<Rightarrow> 32 word \<Rightarrow> bool" where
  "in_filter g pid = (pid \<in> set (map ucast (filter_set g)))"

text \<open>
  The entries that the inner loop still looks at once the first entry equal to
  \<open>pid\<close> has matched.
\<close>

definition after_first_match :: "16 word list \<Rightarrow> 32 word \<Rightarrow> 16 word list" where
  "after_first_match fs pid = tl (dropWhile (\<lambda>f. ucast f \<noteq> pid) fs)"

definition null_after_match :: "globals \<Rightarrow> 32 word \<Rightarrow> bool" where
  "null_after_match g pid = (PID_NULL \<in> set (map ucast (after_first_match (filter_set g) pid)))"

text \<open>The count stays inside the array, as it does after \<^verbatim>\<open>parse_args\<close> returns.\<close>

definition filter_ok :: "globals \<Rightarrow> bool" where
  "filter_ok g = (Pid2PatchCount g \<le> int (length (Pid2Patch g)))"

text \<open>What the inner loop does to a header, as a function of the header alone.\<close>

fun scan_pids :: "16 word list \<Rightarrow> TSHDR_t \<Rightarrow> int \<Rightarrow> TSHDR_t \<times> int" where
  "scan_pids [] h n = (h, n)"
| "scan_pids (f # fs) h n =
     (if get_pid h = ucast f then scan_pids fs (set_pid h PID_NULL) (n + 1)
      else scan_pids fs h n)"

definition patch_hdr :: "globals \<Rightarrow> TSHDR_t \<Rightarrow> TSHDR_t \<times> int" where
  "patch_hdr g h = (if check_sync h then scan_pids (filter_set g) h 0 else (h, 0))"

text \<open>The buffer, the count and the number of sync errors after \<open>r\<close> windows from \<open>p\<close>.\<close>

fun patch_pure :: "globals \<Rightarrow> nat \<Rightarrow> nat \<Rightarrow> byte list \<Rightarrow> byte list" where
  "patch_pure g p 0 mem = mem"
| "patch_pure g p (Suc r) mem =
     patch_pure g (p + TS_LEN) r (put_hdr mem p (fst (patch_hdr g (hdr_at mem p))))"

fun count_pure :: "globals \<Rightarrow> nat \<Rightarrow> nat \<Rightarrow> byte list \<Rightarrow> int" where
  "count_pure g p 0 mem = 0"
| "count_pure g p (Suc r) mem =
     snd (patch_hdr g (hdr_at mem p)) + count_pure g (p + TS_LEN) r mem"

fun sync_error_count :: "nat \<Rightarrow> nat \<Rightarrow> byte list \<Rightarrow> nat" where
  "sync_error_count p 0 mem = 0"
| "sync_error_count p (Suc r) mem =
     (if mem ! p \<noteq> TS_SYNC then 1 else 0) + sync_error_count (p + TS_LEN) r mem"

section \<open>Example inputs\<close>

text \<open>
  A transport stream packet with the given first three bytes, fourth byte
  \<open>0x10\<close> (payload only, continuity counter 0) and an empty payload.
\<close>

definition example_packet :: "byte \<Rightarrow> byte \<Rightarrow> byte \<Rightarrow> byte list" where
  "example_packet b0 b1 b2 = [b0, b1, b2, 0x10] @ replicate 184 0"

text \<open>Two packets and no header: PID 100 with the start flag set, then PID 200.\<close>

definition two_packets :: "byte list" where
  "two_packets = example_packet 0x47 0x40 0x64 @ example_packet 0x47 0x00 0xC8"

text \<open>What \<^verbatim>\<open>patch_ts\<close> makes of it when 100 is listed: only bytes 1 and 2 differ.\<close>

definition two_packets_patched :: "byte list" where
  "two_packets_patched = example_packet 0x47 0x5F 0xFF @ example_packet 0x47 0x00 0xC8"

text \<open>A header of twelve bytes, a packet whose sync byte is broken, a packet with PID 100.\<close>

definition rtp_broken_sync :: "byte list" where
  "rtp_broken_sync =
     replicate 12 0x80 @ example_packet 0x46 0x40 0x64 @ example_packet 0x47 0x40 0x64"

definition rtp_broken_sync_patched :: "byte list" where
  "rtp_broken_sync_patched =
     replicate 12 0x80 @ example_packet 0x46 0x40 0x64 @ example_packet 0x47 0x5F 0xFF"


text \<open>The globals with the given PIDs stored in front of \<^verbatim>\<open>Pid2Patch\<close>.\<close>

definition globals_with :: "16 word list \<Rightarrow> globals" where
  "globals_with pids =
     initial_globals
       \<lparr>Pid2Patch := pids @ replicate (100 - length pids) 0,
        Pid2PatchCount := int (length pids)\<rparr>"

section \<open>Facts about the header\<close>

lemma pid_mask13: "(0x1FFF :: 32 word) = mask 13"
  by (simp add: mask_eq_exp_minus_1)

lemma pid_mask8: "(0xFF :: 32 word) = mask 8"
  by (simp add: mask_eq_exp_minus_1)

lemma byte1_join:
  "(ucast (ucast b1 :: 5 word) :: 8 word) OR push_bit 5 (ucast (ucast (drop_bit 5 b1) :: 1 word)) OR
     push_bit 6 (ucast (ucast (drop_bit 6 b1) :: 1 word)) OR
     push_bit 7 (ucast (ucast (drop_bit 7 b1) :: 1 word)) = b1"
  (is "?l = _")
proof (rule bit_word_eqI)
  fix n assume "n < LENGTH(8)"
  then have "n < 8" by simp
  then consider "n < 5" | "n = 5" | "n = 6" | "n = 7" by arith
  then show "bit ?l n = bit b1 n"
  proof cases
    case 1 then show ?thesis by (simp add: bit_simps)
  next
    case 2 then show ?thesis by (simp add: bit_simps)
  next
    case 3 then show ?thesis by (simp add: bit_simps)
  next
    case 4 then show ?thesis by (simp add: bit_simps)
  qed
qed

lemma byte3_join:
  "(ucast (ucast b3 :: 4 word) :: 8 word) OR push_bit 4 (ucast (ucast (drop_bit 4 b3) :: 2 word)) OR
     push_bit 6 (ucast (ucast (drop_bit 6 b3) :: 2 word)) = b3"
  (is "?l = _")
proof (rule bit_word_eqI)
  fix n assume "n < LENGTH(8)"
  then have "n < 8" by simp
  then consider "n < 4" | "n = 4" | "n = 5" | "n = 6" | "n = 7" by arith
  then show "bit ?l n = bit b3 n"
  proof cases
    case 1 then show ?thesis by (simp add: bit_simps)
  next
    case 2 then show ?thesis by (simp add: bit_simps)
  next
    case 3 then show ?thesis by (simp add: bit_simps)
  next
    case 4 then show ?thesis by (simp add: bit_simps)
  next
    case 5 then show ?thesis by (simp add: bit_simps)
  qed
qed

lemma hdr_byte1_of_bytes: "hdr_byte1 (hdr_of_bytes b0 b1 b2 b3) = b1"
  by (simp add: hdr_byte1_def hdr_of_bytes_def byte1_join)

lemma hdr_byte3_of_bytes: "hdr_byte3 (hdr_of_bytes b0 b1 b2 b3) = b3"
  by (simp add: hdr_byte3_def hdr_of_bytes_def byte3_join)

lemma bytes_of_hdr_of_bytes: "bytes_of_hdr (hdr_of_bytes b0 b1 b2 b3) = [b0, b1, b2, b3]"
  by (simp add: bytes_of_hdr_def hdr_byte1_of_bytes hdr_byte3_of_bytes) (simp add: hdr_of_bytes_def)

lemma byte1_pidH: "(ucast (hdr_byte1 h) :: 5 word) = pidH h"
  unfolding hdr_byte1_def
  by (rule bit_word_eqI) (auto simp: bit_simps dest: bit_imp_le_length)

lemma byte1_tp: "(ucast (drop_bit 5 (hdr_byte1 h)) :: 1 word) = tp h"
  unfolding hdr_byte1_def
  by (rule bit_word_eqI) (auto simp: bit_simps dest: bit_imp_le_length)

lemma byte1_pusi: "(ucast (drop_bit 6 (hdr_byte1 h)) :: 1 word) = pusi h"
  unfolding hdr_byte1_def
  by (rule bit_word_eqI) (auto simp: bit_simps dest: bit_imp_le_length)

lemma byte1_tei: "(ucast (drop_bit 7 (hdr_byte1 h)) :: 1 word) = tei h"
  unfolding hdr_byte1_def
  by (rule bit_word_eqI) (auto simp: bit_simps dest: bit_imp_le_length)

lemma byte3_cc: "(ucast (hdr_byte3 h) :: 4 word) = cc h"
  unfolding hdr_byte3_def
  by (rule bit_word_eqI) (auto simp: bit_simps dest: bit_imp_le_length)

lemma byte3_afc: "(ucast (drop_bit 4 (hdr_byte3 h)) :: 2 word) = afc h"
  unfolding hdr_byte3_def
  by (rule bit_word_eqI) (auto simp: bit_simps dest: bit_imp_le_length)

lemma byte3_tfc: "(ucast (drop_bit 6 (hdr_byte3 h)) :: 2 word) = tfc h"
  unfolding hdr_byte3_def
  by (rule bit_word_eqI) (auto simp: bit_simps dest: bit_imp_le_length)

lemma hdr_of_bytes_of_hdr:
  "hdr_of_bytes (sync h) (hdr_byte1 h) (pidL h) (hdr_byte3 h) = h"
  by (simp add: hdr_of_bytes_def byte1_pidH byte1_tp byte1_pusi byte1_tei
      byte3_cc byte3_afc byte3_tfc)

lemma get_pid_set_pid: "get_pid (set_pid h v) = v AND 0x1FFF"
  unfolding get_pid_def set_pid_def pid_mask13 pid_mask8
  apply (simp add: Let_def)
  apply (rule bit_word_eqI)
  apply (auto simp: bit_simps)
  done

lemma get_pid_le: "get_pid h \<le> 8191"
proof -
  have "get_pid h = get_pid h AND mask 13"
    unfolding get_pid_def
    by (rule bit_word_eqI) (auto simp: bit_simps dest: bit_imp_le_length)
  then have "get_pid h \<le> mask 13"
    by (metis word_and_le1)
  then show ?thesis
    by (simp add: mask_eq_exp_minus_1)
qed

lemma set_pid_fields:
  "sync (set_pid h v) = sync h" "tp (set_pid h v) = tp h" "pusi (set_pid h v) = pusi h"
  "tei (set_pid h v) = tei h" "cc (set_pid h v) = cc h" "afc (set_pid h v) = afc h"
  "tfc (set_pid h v) = tfc h"
  by (simp_all add: set_pid_def Let_def)


lemma get_pid_set_pid_null: "get_pid (set_pid h PID_NULL) = PID_NULL"
  by (simp add: get_pid_set_pid PID_NULL_def)

lemma check_sync_set_pid: "check_sync (set_pid h v) = check_sync h"
  by (simp add: check_sync_def set_pid_fields)

lemma hdr_byte3_set_pid: "hdr_byte3 (set_pid h v) = hdr_byte3 h"
  by (simp add: hdr_byte3_def set_pid_fields)

section \<open>Facts about headers in the buffer\<close>

lemma length_put_hdr: "length (put_hdr mem p h) = length mem"
  by (simp add: put_hdr_def)

lemma nth_put_hdr_other: "i < p \<or> p + 4 \<le> i \<Longrightarrow> put_hdr mem p h ! i = mem ! i"
  by (auto simp: put_hdr_def)

lemma hdr_at_put_hdr_same: "p + 4 \<le> length mem \<Longrightarrow> hdr_at (put_hdr mem p h) p = h"
  by (simp add: hdr_at_def put_hdr_def hdr_of_bytes_of_hdr)

lemma hdr_at_put_hdr_other:
  "q + 4 \<le> p \<or> p + 4 \<le> q \<Longrightarrow> hdr_at (put_hdr mem p h) q = hdr_at mem q"
  by (auto simp: hdr_at_def nth_put_hdr_other)

lemma put_hdr_hdr_at: "put_hdr mem p (hdr_at mem p) = mem"
  by (simp add: put_hdr_def hdr_at_def hdr_byte1_of_bytes hdr_byte3_of_bytes)
     (simp add: hdr_of_bytes_def)

lemma nth_update_read: "j < length xs \<Longrightarrow> xs[i := x] ! j = (if i = j then x else xs ! j)"
  by (cases "i = j") simp_all

lemma put_hdr_put_hdr: "put_hdr (put_hdr mem p h) p h' = put_hdr mem p h'"
  by (rule nth_equalityI) (simp_all add: put_hdr_def nth_update_read)

lemma load_hdr_ok: "p + 4 \<le> length mem \<Longrightarrow> load_hdr mem p = Inr (hdr_at mem p)"
  by (simp add: load_hdr_def hdr_at_def)

lemma store_hdr_ok: "p + 4 \<le> length mem \<Longrightarrow> store_hdr mem p h = Inr (put_hdr mem p h)"
  by (simp add: store_hdr_def)

lemma take_Suc_drop:
  "i < length xs \<Longrightarrow> take (Suc r) (drop i xs) = xs ! i # take r (drop (Suc i) xs)"
  by (metis Cons_nth_drop_Suc take_Suc_Cons)

lemma pid_loop_scan:
  "p + 4 \<le> length mem \<Longrightarrow> i + r \<le> length (Pid2Patch g) \<Longrightarrow>
   pid_loop g p i r mem n =
     Inr (put_hdr mem p (fst (scan_pids (take r (drop i (Pid2Patch g))) (hdr_at mem p) n)),
          snd (scan_pids (take r (drop i (Pid2Patch g))) (hdr_at mem p) n))"
proof (induction r arbitrary: i mem n)
  case 0
  then show ?case by (simp add: put_hdr_hdr_at)
next
  case (Suc r)
  then have i: "i < length (Pid2Patch g)" and r: "Suc i + r \<le> length (Pid2Patch g)"
    by simp_all
  let ?m = "put_hdr mem p (set_pid (hdr_at mem p) PID_NULL)"
  have len: "p + 4 \<le> length ?m"
    using Suc.prems(1) by (simp add: length_put_hdr)
  show ?case
  proof (cases "get_pid (hdr_at mem p) = ucast (Pid2Patch g ! i)")
    case True
    have "pid_loop g p i (Suc r) mem n = pid_loop g p (Suc i) r ?m (n + 1)"
      using i True Suc.prems(1) by (simp add: load_hdr_ok store_hdr_ok)
    also have "\<dots> = Inr (put_hdr ?m p (fst (scan_pids (take r (drop (Suc i) (Pid2Patch g))) (hdr_at ?m p) (n + 1))),
          snd (scan_pids (take r (drop (Suc i) (Pid2Patch g))) (hdr_at ?m p) (n + 1)))"
      by (rule Suc.IH [OF len r])
    finally show ?thesis
      using True i Suc.prems(1)
      by (simp add: take_Suc_drop put_hdr_put_hdr hdr_at_put_hdr_same)
  next
    case False
    have "pid_loop g p i (Suc r) mem n = pid_loop g p (Suc i) r mem n"
      using i False Suc.prems(1) by (simp add: load_hdr_ok)
    then show ?thesis
      using False i Suc.IH [OF Suc.prems(1) r, of n]
      by (simp add: take_Suc_drop)
  qed
qed

lemma pid_loop_filter:
  assumes "p + 4 \<le> length mem" and "filter_ok g"
  shows "pid_loop g p 0 (nat (Pid2PatchCount g)) mem n =
     Inr (put_hdr mem p (fst (scan_pids (filter_set g) (hdr_at mem p) n)),
          snd (scan_pids (filter_set g) (hdr_at mem p) n))"
proof -
  have "0 + nat (Pid2PatchCount g) \<le> length (Pid2Patch g)"
    using assms(2) by (simp add: filter_ok_def)
  from pid_loop_scan [OF assms(1) this] show ?thesis
    by (simp add: filter_set_def)
qed

section \<open>The loops as functions of the buffer\<close>

lemma scan_pids_count:
  "fst (scan_pids fs h n) = fst (scan_pids fs h 0) \<and>
   snd (scan_pids fs h n) = n + snd (scan_pids fs h 0)"
proof (induction fs arbitrary: h n)
  case Nil
  then show ?case by simp
next
  case (Cons f fs)
  show ?case
  proof (cases "get_pid h = ucast f")
    case True
    from Cons.IH [of "set_pid h PID_NULL" "n + 1"] Cons.IH [of "set_pid h PID_NULL" 1]
    show ?thesis using True by simp
  next
    case False
    from Cons.IH [of h n] show ?thesis using False by simp
  qed
qed

lemma sync_hdr_at: "sync (hdr_at mem p) = mem ! p"
  by (simp add: hdr_at_def hdr_of_bytes_def)

lemma check_sync_hdr_at: "check_sync (hdr_at mem p) = (mem ! p = TS_SYNC)"
  by (auto simp: check_sync_def sync_hdr_at)

lemma patch_pure_length: "length (patch_pure g p r mem) = length mem"
  by (induction r arbitrary: p mem) (simp_all add: length_put_hdr)

lemma patch_pure_before: "i < p \<Longrightarrow> patch_pure g p r mem ! i = mem ! i"
proof (induction r arbitrary: p mem)
  case 0
  then show ?case by simp
next
  case (Suc r)
  then show ?case by (simp add: nth_put_hdr_other)
qed

lemma patch_pure_outside:
  "(\<forall>j<r. i < p + TS_LEN * j \<or> p + TS_LEN * j + 4 \<le> i) \<Longrightarrow>
   patch_pure g p r mem ! i = mem ! i"
proof (induction r arbitrary: p mem)
  case 0
  then show ?case by simp
next
  case (Suc r)
  have here: "i < p \<or> p + 4 \<le> i"
    using Suc.prems [rule_format, of 0] by simp
  have later: "\<forall>j<r. i < (p + TS_LEN) + TS_LEN * j \<or> (p + TS_LEN) + TS_LEN * j + 4 \<le> i"
  proof (intro allI impI)
    fix j assume "j < r"
    then have "Suc j < Suc r" by simp
    from Suc.prems [rule_format, OF this]
    show "i < (p + TS_LEN) + TS_LEN * j \<or> (p + TS_LEN) + TS_LEN * j + 4 \<le> i"
      by (simp add: algebra_simps)
  qed
  show ?case
    using Suc.IH [OF later] here by (simp add: nth_put_hdr_other)
qed

lemma hdr_at_before: "q + 4 \<le> p \<Longrightarrow> hdr_at (patch_pure g p r mem) q = hdr_at mem q"
  by (simp add: hdr_at_def patch_pure_before)

lemma hdr_at_patch_pure:
  "j < r \<Longrightarrow> p + TS_LEN * r \<le> length mem \<Longrightarrow>
   hdr_at (patch_pure g p r mem) (p + TS_LEN * j) = fst (patch_hdr g (hdr_at mem (p + TS_LEN * j)))"
proof (induction r arbitrary: p mem j)
  case 0
  then show ?case by simp
next
  case (Suc r)
  let ?m = "put_hdr mem p (fst (patch_hdr g (hdr_at mem p)))"
  have p4: "p + 4 \<le> length mem"
    using Suc.prems(2) by (simp add: TS_LEN_def)
  show ?case
  proof (cases j)
    case 0
    have "hdr_at (patch_pure g (p + TS_LEN) r ?m) p = hdr_at ?m p"
      by (rule hdr_at_before) (simp add: TS_LEN_def)
    then show ?thesis
      using 0 p4 by (simp add: hdr_at_put_hdr_same)
  next
    case (Suc k)
    then have k: "k < r" using Suc.prems(1) by simp
    have len: "(p + TS_LEN) + TS_LEN * r \<le> length ?m"
      using Suc.prems(2) by (simp add: length_put_hdr)
    have "hdr_at ?m (p + TS_LEN + TS_LEN * k) = hdr_at mem (p + TS_LEN + TS_LEN * k)"
      by (rule hdr_at_put_hdr_other) (simp add: TS_LEN_def)
    with Suc.IH [OF k len] show ?thesis
      using Suc by (simp add: algebra_simps)
  qed
qed

lemma count_pure_put_hdr:
  "q + 4 \<le> p \<Longrightarrow> count_pure g p r (put_hdr mem q h) = count_pure g p r mem"
  by (induction r arbitrary: p) (simp_all add: hdr_at_put_hdr_other)

lemma sync_error_count_put_hdr:
  "q + 4 \<le> p \<Longrightarrow> sync_error_count p r (put_hdr mem q h) = sync_error_count p r mem"
  by (induction r arbitrary: p) (simp_all add: nth_put_hdr_other)

lemma ts_loop_pure:
  "p + TS_LEN * r \<le> length mem \<Longrightarrow> filter_ok g \<Longrightarrow>
   ts_loop g p r mem n out =
     Inr (patch_pure g p r mem, n + count_pure g p r mem,
          out @ replicate (sync_error_count p r mem) sync_error_msg)"
proof (induction r arbitrary: p mem n out)
  case 0
  then show ?case by simp
next
  case (Suc r)
  have p4: "p + 4 \<le> length mem"
    using Suc.prems(1) by (simp add: TS_LEN_def)
  have far: "p + 4 \<le> p + TS_LEN"
    by (simp add: TS_LEN_def)
  show ?case
  proof (cases "check_sync (hdr_at mem p)")
    case False
    have len: "(p + TS_LEN) + TS_LEN * r \<le> length mem"
      using Suc.prems(1) by simp
    have "ts_loop g p (Suc r) mem n out = ts_loop g (p + TS_LEN) r mem n (out @ [sync_error_msg])"
      using False p4 by (simp add: load_hdr_ok)
    with Suc.IH [OF len Suc.prems(2)] show ?thesis
      using False by (simp add: patch_hdr_def put_hdr_hdr_at check_sync_hdr_at replicate_app_Cons_same)
  next
    case True
    let ?h = "fst (scan_pids (filter_set g) (hdr_at mem p) 0)"
    let ?k = "snd (scan_pids (filter_set g) (hdr_at mem p) 0)"
    let ?m = "put_hdr mem p ?h"
    have len: "(p + TS_LEN) + TS_LEN * r \<le> length ?m"
      using Suc.prems(1) by (simp add: length_put_hdr)
    have "pid_loop g p 0 (nat (Pid2PatchCount g)) mem n = Inr (?m, n + ?k)"
      using pid_loop_filter [OF p4 Suc.prems(2), of n] scan_pids_count [of "filter_set g" "hdr_at mem p" n]
      by simp
    then have "ts_loop g p (Suc r) mem n out = ts_loop g (p + TS_LEN) r ?m (n + ?k) out"
      using True p4 by (simp add: load_hdr_ok)
    with Suc.IH [OF len Suc.prems(2)] show ?thesis
      using True far
      by (simp add: patch_hdr_def count_pure_put_hdr sync_error_count_put_hdr check_sync_hdr_at)
  qed
qed

lemma patch_ts_pure:
  assumes "ts_buf + TS_LEN * nat n_ts \<le> length mem" and "filter_ok g"
  shows "patch_ts g mem ts_buf n_ts =
     Inr (patch_pure g ts_buf (nat n_ts) mem, count_pure g ts_buf (nat n_ts) mem,
          replicate (sync_error_count ts_buf (nat n_ts) mem) sync_error_msg)"
  using ts_loop_pure [OF assms, of 0 "[]"] by (simp add: patch_ts_def)

section \<open>What the scan of the filter set does to a header\<close>

lemma set_pid_null_twice: "set_pid (set_pid h PID_NULL) PID_NULL = set_pid h PID_NULL"
  by (simp add: set_pid_def Let_def)


lemma scan_pids_after_null:
  "fst (scan_pids fs (set_pid h PID_NULL) n) = set_pid h PID_NULL"
  by (induction fs arbitrary: n) (simp_all add: set_pid_null_twice)

lemma scan_pids_match:
  "get_pid h \<in> set (map ucast fs) \<Longrightarrow> fst (scan_pids fs h n) = set_pid h PID_NULL"
  by (induction fs arbitrary: n) (auto simp: scan_pids_after_null)

lemma scan_pids_no_match:
  "get_pid h \<notin> set (map ucast fs) \<Longrightarrow> scan_pids fs h n = (h, n)"
  by (induction fs arbitrary: n) auto

lemma scan_pids_match_once:
  "get_pid h \<in> set (map ucast fs) \<Longrightarrow> PID_NULL \<notin> set (map ucast fs) \<Longrightarrow>
   snd (scan_pids fs h n) = n + 1"
proof (induction fs arbitrary: n)
  case Nil
  then show ?case by simp
next
  case (Cons f fs)
  show ?case
  proof (cases "get_pid h = ucast f")
    case True
    have "get_pid (set_pid h PID_NULL) \<notin> set (map ucast fs)"
      using Cons.prems(2) by (simp add: get_pid_set_pid_null)
    then show ?thesis
      using True by (simp add: scan_pids_no_match)
  next
    case False
    then show ?thesis
      using Cons by auto
  qed
qed

lemma scan_pids_sync: "sync (fst (scan_pids fs h n)) = sync h"
  by (induction fs arbitrary: h n) (simp_all add: set_pid_fields)

lemma patch_hdr_no_sync: "\<not> check_sync h \<Longrightarrow> patch_hdr g h = (h, 0)"
  by (simp add: patch_hdr_def)

lemma patch_hdr_listed:
  "check_sync h \<Longrightarrow> in_filter g (get_pid h) \<Longrightarrow> fst (patch_hdr g h) = set_pid h PID_NULL"
  by (simp add: patch_hdr_def in_filter_def scan_pids_match)

lemma patch_hdr_listed_once:
  "check_sync h \<Longrightarrow> in_filter g (get_pid h) \<Longrightarrow> \<not> in_filter g PID_NULL \<Longrightarrow>
   snd (patch_hdr g h) = 1"
  using scan_pids_match_once [of h "filter_set g" 0]
  by (simp add: patch_hdr_def in_filter_def)

lemma patch_hdr_not_listed: "\<not> in_filter g (get_pid h) \<Longrightarrow> patch_hdr g h = (h, 0)"
  by (simp add: patch_hdr_def in_filter_def scan_pids_no_match)

lemma patch_hdr_sync: "sync (fst (patch_hdr g h)) = sync h"
  by (simp add: patch_hdr_def scan_pids_sync)

lemma patch_hdr_idem:
  assumes "\<not> in_filter g PID_NULL"
  shows "patch_hdr g (fst (patch_hdr g h)) = (fst (patch_hdr g h), 0)"
proof (cases "check_sync h \<and> in_filter g (get_pid h)")
  case True
  then have "fst (patch_hdr g h) = set_pid h PID_NULL"
    by (simp add: patch_hdr_listed)
  then show ?thesis
    using assms by (simp add: patch_hdr_not_listed get_pid_set_pid_null)
next
  case False
  then have "patch_hdr g h = (h, 0)"
    by (auto simp: patch_hdr_no_sync patch_hdr_not_listed)
  then show ?thesis by simp
qed


lemma scan_pids_mono: "n \<le> snd (scan_pids fs h n)"
proof (induction fs arbitrary: h n)
  case Nil
  then show ?case by simp
next
  case (Cons f fs)
  show ?case
  proof (cases "get_pid h = ucast f")
    case True
    with Cons.IH [of "n + 1" "set_pid h PID_NULL"] show ?thesis by simp
  next
    case False
    with Cons.IH [of n h] show ?thesis by simp
  qed
qed

lemma scan_pids_null_listed:
  "get_pid h = PID_NULL \<Longrightarrow> PID_NULL \<in> set (map ucast fs) \<Longrightarrow>
   n + 1 \<le> snd (scan_pids fs h n)"
proof (induction fs arbitrary: n)
  case Nil
  then show ?case by simp
next
  case (Cons f fs)
  show ?case
  proof (cases "get_pid h = ucast f")
    case True
    with scan_pids_mono [of "n + 1" fs "set_pid h PID_NULL"] show ?thesis by simp
  next
    case False
    then have "PID_NULL \<in> set (map ucast fs)"
      using Cons.prems by auto
    from Cons.IH [OF Cons.prems(1) this, of n] show ?thesis
      using False by simp
  qed
qed

lemma scan_pids_null_after_match:
  "get_pid h \<in> set (map ucast fs) \<Longrightarrow>
   PID_NULL \<in> set (map ucast (after_first_match fs (get_pid h))) \<Longrightarrow>
   n + 2 \<le> snd (scan_pids fs h n)"
proof (induction fs arbitrary: n)
  case Nil
  then show ?case by simp
next
  case (Cons f fs)
  show ?case
  proof (cases "get_pid h = ucast f")
    case True
    then have "after_first_match (f # fs) (get_pid h) = fs"
      by (simp add: after_first_match_def)
    then have "PID_NULL \<in> set (map ucast fs)"
      using Cons.prems(2) by simp
    from scan_pids_null_listed [OF get_pid_set_pid_null this, of "n + 1" h] show ?thesis
      using True by simp
  next
    case False
    then have a: "after_first_match (f # fs) (get_pid h) = after_first_match fs (get_pid h)"
      by (auto simp: after_first_match_def)
    have "get_pid h \<in> set (map ucast fs)"
      using Cons.prems(1) False by auto
    from Cons.IH [OF this] Cons.prems(2) show ?thesis
      using False by (simp add: a)
  qed
qed


lemma patch_hdr_listed_null_after:
  "check_sync h \<Longrightarrow> in_filter g (get_pid h) \<Longrightarrow> null_after_match g (get_pid h) \<Longrightarrow>
   2 \<le> snd (patch_hdr g h)"
  using scan_pids_null_after_match [of h "filter_set g" 0]
  by (simp add: patch_hdr_def in_filter_def null_after_match_def)

lemma no_null_no_null_after: "\<not> in_filter g PID_NULL \<Longrightarrow> \<not> null_after_match g pid"
proof -
  have "set (after_first_match fs pid) \<subseteq> set fs" for fs :: "16 word list"
    unfolding after_first_match_def
    by (metis (no_types, lifting) list.sel(2) list.set_sel(2) set_dropWhileD subsetI)
  then show "\<not> in_filter g PID_NULL \<Longrightarrow> \<not> null_after_match g pid"
    by (auto simp: in_filter_def null_after_match_def)
qed





lemma hdr_at_bytes:
  "bytes_of_hdr (hdr_at mem p) = [mem ! p, mem ! (p + 1), mem ! (p + 2), mem ! (p + 3)]"
  by (simp add: hdr_at_def bytes_of_hdr_of_bytes)


section \<open>Windows of the patched buffer\<close>

lemma nth_bytes_of_hdr_at:
  "k < 4 \<Longrightarrow> mem ! (p + k) = bytes_of_hdr (hdr_at mem p) ! k"
proof -
  assume "k < 4"
  then consider "k = 0" | "k = 1" | "k = 2" | "k = 3" by arith
  then show ?thesis
    by cases (simp_all add: hdr_at_bytes)
qed

lemma nth_patch_pure_window:
  assumes "j < r" and "p + TS_LEN * r \<le> length mem" and "k < TS_LEN"
  shows "patch_pure g p r mem ! (p + TS_LEN * j + k) =
     (if k < 4 then bytes_of_hdr (fst (patch_hdr g (hdr_at mem (p + TS_LEN * j)))) ! k
      else mem ! (p + TS_LEN * j + k))"
proof (cases "k < 4")
  case True
  then show ?thesis
    using nth_bytes_of_hdr_at [OF True, of "patch_pure g p r mem" "p + TS_LEN * j"]
      hdr_at_patch_pure [OF assms(1,2), of g]
    by simp
next
  case False
  have "\<forall>j'<r. p + TS_LEN * j + k < p + TS_LEN * j' \<or> p + TS_LEN * j' + 4 \<le> p + TS_LEN * j + k"
  proof (intro allI impI)
    fix j' assume "j' < r"
    show "p + TS_LEN * j + k < p + TS_LEN * j' \<or> p + TS_LEN * j' + 4 \<le> p + TS_LEN * j + k"
      using False assms(3) unfolding TS_LEN_def by (cases "j' \<le> j") arith+
  qed
  from patch_pure_outside [OF this] show ?thesis
    using False by simp
qed

lemma count_pure_split:
  "count_pure g p (a + b) mem = count_pure g p a mem + count_pure g (p + TS_LEN * a) b mem"
  by (induction a arbitrary: p) (simp_all add: algebra_simps)

lemma count_pure_window:
  assumes "j < r"
  shows "count_pure g p r mem =
     count_pure g p j mem + snd (patch_hdr g (hdr_at mem (p + TS_LEN * j))) +
     count_pure g (p + TS_LEN * Suc j) (r - Suc j) mem"
proof -
  have "r = j + Suc (r - Suc j)"
    using assms by simp
  then have "count_pure g p r mem = count_pure g p (j + Suc (r - Suc j)) mem"
    by simp
  also have "\<dots> = count_pure g p j mem + count_pure g (p + TS_LEN * j) (Suc (r - Suc j)) mem"
    by (rule count_pure_split)
  finally show ?thesis
    by (simp add: algebra_simps)
qed

section \<open>A second pass\<close>

lemma patch_pure_idem:
  "p + TS_LEN * r \<le> length mem \<Longrightarrow> \<not> in_filter g PID_NULL \<Longrightarrow>
   patch_pure g p r (patch_pure g p r mem) = patch_pure g p r mem \<and>
   count_pure g p r (patch_pure g p r mem) = 0"
proof (induction r arbitrary: p mem)
  case 0
  then show ?case by simp
next
  case (Suc r)
  let ?h = "fst (patch_hdr g (hdr_at mem p))"
  let ?m = "put_hdr mem p ?h"
  let ?b = "patch_pure g (p + TS_LEN) r ?m"
  have p4: "p + 4 \<le> length mem"
    using Suc.prems(1) by (simp add: TS_LEN_def)
  have len: "(p + TS_LEN) + TS_LEN * r \<le> length ?m"
    using Suc.prems(1) by (simp add: length_put_hdr)
  have "hdr_at ?b p = hdr_at ?m p"
    by (rule hdr_at_before) (simp add: TS_LEN_def)
  then have h: "hdr_at ?b p = ?h"
    using p4 by (simp add: hdr_at_put_hdr_same)
  have idem: "patch_hdr g ?h = (?h, 0)"
    by (rule patch_hdr_idem [OF Suc.prems(2)])
  have "put_hdr ?b p (fst (patch_hdr g (hdr_at ?b p))) = put_hdr ?b p (hdr_at ?b p)"
    using h idem by simp
  then have put: "put_hdr ?b p (fst (patch_hdr g (hdr_at ?b p))) = ?b"
    by (simp only: put_hdr_hdr_at)
  have snd0: "snd (patch_hdr g (hdr_at ?b p)) = 0"
    using h idem by simp
  from Suc.IH [OF len Suc.prems(2)] put snd0 show ?case
    by simp
qed

lemma sync_error_count_patch_pure:
  "sync_error_count p r (patch_pure g p r mem) = sync_error_count p r mem"
proof (induction r arbitrary: p mem)
  case 0
  then show ?case by simp
next
  case (Suc r)
  let ?m = "put_hdr mem p (fst (patch_hdr g (hdr_at mem p)))"
  have far: "p + 4 \<le> p + TS_LEN"
    by (simp add: TS_LEN_def)
  have "patch_pure g (p + TS_LEN) r ?m ! p = ?m ! p"
    by (rule patch_pure_before) (simp add: TS_LEN_def)
  moreover have "?m ! p = mem ! p"
  proof (cases "p < length mem")
    case True
    then show ?thesis
      by (simp add: put_hdr_def patch_hdr_sync sync_hdr_at)
  next
    case False
    then show ?thesis
      by (simp add: put_hdr_def list_update_beyond)
  qed
  ultimately show ?case
    using Suc.IH [of "p + TS_LEN" ?m] far
    by (simp add: sync_error_count_put_hdr)
qed

section \<open>Framing\<close>

lemma main_frame_nonneg:
  "0 \<le> n_in \<Longrightarrow> main_frame n_in = (n_in div 188, n_in mod 188)"
  by (simp add: main_frame_def TS_LEN_def signed_divide_int_def sgn_if Let_def
      minus_div_mult_eq_mod)

lemma main_frame_bounds:
  assumes "0 \<le> n_in"
  shows "0 \<le> fst (main_frame n_in)" and "0 \<le> snd (main_frame n_in)"
    and "snd (main_frame n_in) + 188 * fst (main_frame n_in) = n_in"
  using assms by (simp_all add: main_frame_nonneg)

lemma unat_mask13: "unat (v AND (0x1FFF :: 32 word)) = unat v mod 8192"
proof -
  have "v AND mask 13 = take_bit 13 v"
    by (simp add: take_bit_eq_mask)
  moreover have "unat (take_bit 13 v) = take_bit 13 (unat v)"
    by (rule unsigned_take_bit_eq)
  moreover have "take_bit 13 (unat v) = unat v mod 2 ^ 13"
    by (rule take_bit_eq_mod)
  ultimately show ?thesis
    by (simp add: pid_mask13)
qed

lemma hdr_byte1_high:
  "hdr_byte1 h AND 0xE0 =
     push_bit 5 (ucast (tp h)) OR push_bit 6 (ucast (pusi h)) OR push_bit 7 (ucast (tei h))"
  (is "?l = ?r")
proof -
  have m: "(0xE0 :: 8 word) = NOT (mask 5)"
    by (simp add: mask_eq_exp_minus_1)
  show ?thesis
  proof (rule bit_word_eqI)
    fix n assume "n < LENGTH(8)"
    then have "n < 8" by simp
    then consider "n < 5" | "n = 5" | "n = 6" | "n = 7" by arith
    then show "bit ?l n = bit ?r n"
      unfolding m hdr_byte1_def
    proof cases
      case 1 then show "bit ((ucast (pidH h) OR push_bit 5 (ucast (tp h)) OR push_bit 6 (ucast (pusi h)) OR
          push_bit 7 (ucast (tei h))) AND NOT (mask 5) :: 8 word) n = bit ?r n"
        by (simp add: bit_simps)
    next
      case 2 then show "bit ((ucast (pidH h) OR push_bit 5 (ucast (tp h)) OR push_bit 6 (ucast (pusi h)) OR
          push_bit 7 (ucast (tei h))) AND NOT (mask 5) :: 8 word) n = bit ?r n"
        by (auto simp add: bit_simps dest: bit_imp_le_length)
    next
      case 3 then show "bit ((ucast (pidH h) OR push_bit 5 (ucast (tp h)) OR push_bit 6 (ucast (pusi h)) OR
          push_bit 7 (ucast (tei h))) AND NOT (mask 5) :: 8 word) n = bit ?r n"
        by (auto simp add: bit_simps dest: bit_imp_le_length)
    next
      case 4 then show "bit ((ucast (pidH h) OR push_bit 5 (ucast (tp h)) OR push_bit 6 (ucast (pusi h)) OR
          push_bit 7 (ucast (tei h))) AND NOT (mask 5) :: 8 word) n = bit ?r n"
        by (auto simp add: bit_simps dest: bit_imp_le_length)
    qed
  qed
qed

lemma hdr_byte1_high_set_pid: "hdr_byte1 (set_pid h v) AND 0xE0 = hdr_byte1 h AND 0xE0"
  by (simp only: hdr_byte1_high set_pid_fields)

section \<open>The claims\<close>

text \<open>
  C10. For every header and every unsigned value \<open>v\<close>, \<open>get_pid\<close> after
  \<open>set_pid\<close> with \<open>v\<close> gives \<open>v mod 8192\<close>: the argument is cut to 13 bits.
  \<open>set_pid\<close> leaves the seven other bit-fields as they are, so of the four bytes
  of the header the first and the last and the three high bits of the second
  stay. \<open>get_pid\<close> never gives more than 8191.
\<close>

theorem set_pid_get_pid_roundtrip:
  "get_pid (set_pid p v) = v AND 0x1FFF
   \<and> unat (get_pid (set_pid p v)) = unat v mod 8192
   \<and> sync (set_pid p v) = sync p \<and> tei (set_pid p v) = tei p
   \<and> pusi (set_pid p v) = pusi p \<and> tp (set_pid p v) = tp p
   \<and> tfc (set_pid p v) = tfc p \<and> afc (set_pid p v) = afc p \<and> cc (set_pid p v) = cc p
   \<and> bytes_of_hdr (set_pid p v) ! 0 = bytes_of_hdr p ! 0
   \<and> bytes_of_hdr (set_pid p v) ! 1 AND 0xE0 = bytes_of_hdr p ! 1 AND 0xE0
   \<and> bytes_of_hdr (set_pid p v) ! 3 = bytes_of_hdr p ! 3
   \<and> get_pid p \<le> 8191 \<and> get_pid (set_pid p v) \<le> 8191"
proof -
  have pid: "get_pid (set_pid p v) = v AND 0x1FFF"
    by (rule get_pid_set_pid)
  have "unat (get_pid (set_pid p v)) = unat v mod 8192"
    by (simp only: pid unat_mask13)
  moreover have "get_pid (set_pid p v) \<le> 8191"
    by (rule get_pid_le)
  moreover note pid
  ultimately show ?thesis
    by (simp add: set_pid_fields bytes_of_hdr_def hdr_byte3_set_pid hdr_byte1_high_set_pid
        get_pid_le)
qed

text \<open>
  C2. A received length \<open>N = H + 188 * k\<close> with \<open>k \<ge> 0\<close> and \<open>0 \<le> H < 188\<close> is
  framed as \<open>k\<close> packets behind \<open>H\<close> leading bytes. The framing is a function
  of the length only: whatever the buffer and the filter hold, a turn of the
  loop that received \<open>N\<close> bytes works with these two numbers.
\<close>

theorem main_frame_splits_length:
  assumes "0 \<le> k" and "0 \<le> H" and "H < 188"
  shows "main_frame (H + 188 * k) = (k, H)
    \<and> (\<forall>g msgbuf it. main_iteration g msgbuf (H + 188 * k) = Inr it \<longrightarrow>
          n_ts_of it = k \<and> ts_offset_of it = H)"
proof -
  have n: "0 \<le> H + 188 * k"
    using assms by simp
  have f: "main_frame (H + 188 * k) = (k, H)"
    using assms by (simp add: main_frame_nonneg [OF n])
  have "n_ts_of it = k \<and> ts_offset_of it = H"
    if "main_iteration g msgbuf (H + 188 * k) = Inr it" for g msgbuf it
    using that n unfolding main_iteration_def f
    by (auto split: if_splits sum.splits prod.splits)
  with f show ?thesis
    by blast
qed

theorem main_frame_splits_length_witness:
  "main_frame 388 = (2, 12)
   \<and> main_iteration (globals_with [100]) rtp_broken_sync 388 =
       Inr \<lparr>msgbuf_after = rtp_broken_sync_patched, sent = Some rtp_broken_sync_patched,
            n_ts_of = 2, ts_offset_of = 12, patched_of = 1, printed = [sync_error_msg]\<rparr>"
proof -
  have e: "main_iteration (globals_with [100]) rtp_broken_sync 388 =
     Inr \<lparr>msgbuf_after = rtp_broken_sync_patched, sent = Some rtp_broken_sync_patched,
        n_ts_of = 2, ts_offset_of = 12, patched_of = 1, printed = [sync_error_msg]\<rparr>"
    by code_simp
  from main_frame_splits_length [of 2 12] have "main_frame 388 = (2, 12)"
    by simp
  with e show ?thesis
    by (intro conjI)
qed


lemma patch_ts_result:
  assumes "ts_buf + TS_LEN * nat n_ts \<le> length mem" and "filter_ok g"
    and "patch_ts g mem ts_buf n_ts = Inr (mem', n, out)"
  shows "mem' = patch_pure g ts_buf (nat n_ts) mem"
    and "n = count_pure g ts_buf (nat n_ts) mem"
    and "out = replicate (sync_error_count ts_buf (nat n_ts) mem) sync_error_msg"
  using assms(3) unfolding patch_ts_pure [OF assms(1,2)] by simp_all

lemma patch_ts_count_window:
  assumes "ts_buf + TS_LEN * nat n_ts \<le> length mem" and "filter_ok g"
    and "patch_ts g mem ts_buf n_ts = Inr (mem', n, out)" and "j < nat n_ts"
  shows "\<exists>m1 n1 o1 m2 n2 o2.
      patch_ts g mem ts_buf (int j) = Inr (m1, n1, o1) \<and>
      patch_ts g mem (ts_buf + TS_LEN * Suc j) (n_ts - int j - 1) = Inr (m2, n2, o2) \<and>
      n = n1 + snd (patch_hdr g (hdr_at mem (ts_buf + TS_LEN * j))) + n2"
proof -
  have r: "nat (n_ts - int j - 1) = nat n_ts - Suc j"
    using assms(4) by simp
  have "j \<le> nat n_ts"
    using assms(4) by simp
  then have "TS_LEN * j \<le> TS_LEN * nat n_ts"
    by (rule mult_le_mono2)
  then have "ts_buf + TS_LEN * j \<le> length mem"
    using assms(1) by linarith
  then have b1: "ts_buf + TS_LEN * nat (int j) \<le> length mem"
    by (simp only: nat_int)
  have "Suc j + (nat n_ts - Suc j) = nat n_ts"
    using assms(4) by simp
  then have "TS_LEN * (Suc j + (nat n_ts - Suc j)) = TS_LEN * nat n_ts"
    by (simp only:)
  then have "TS_LEN * Suc j + TS_LEN * (nat n_ts - Suc j) = TS_LEN * nat n_ts"
    by (simp only: distrib_left)
  then have b2: "(ts_buf + TS_LEN * Suc j) + TS_LEN * nat (n_ts - int j - 1) \<le> length mem"
    using assms(1) unfolding r by simp
  have "n = count_pure g ts_buf (nat n_ts) mem"
    by (rule patch_ts_result(2) [OF assms(1-3)])
  then have "n = count_pure g ts_buf j mem + snd (patch_hdr g (hdr_at mem (ts_buf + TS_LEN * j))) +
      count_pure g (ts_buf + TS_LEN * Suc j) (nat n_ts - Suc j) mem"
    using count_pure_window [OF assms(4), of g ts_buf mem] by simp
  then show ?thesis
    using patch_ts_pure [OF b1 assms(2)] patch_ts_pure [OF b2 assms(2)] r by simp
qed



text \<open>
  C6. A window that starts with \<open>0x47\<close> and whose PID is not in the filter set
  comes out of \<open>patch_ts\<close> byte for byte as it went in, and it adds nothing to
  the returned count: the count is what the windows before it and the windows
  after it add.
\<close>

theorem patch_ts_keeps_unlisted_pid:
  assumes "ts_buf + TS_LEN * nat n_ts \<le> length mem" and "filter_ok g"
    and "patch_ts g mem ts_buf n_ts = Inr (mem', n, out)"
    and "j < nat n_ts"
    and "mem ! (ts_buf + TS_LEN * j) = TS_SYNC"
    and "\<not> in_filter g (get_pid (hdr_at mem (ts_buf + TS_LEN * j)))"
  shows "(\<forall>k<TS_LEN. mem' ! (ts_buf + TS_LEN * j + k) = mem ! (ts_buf + TS_LEN * j + k))
    \<and> hdr_at mem' (ts_buf + TS_LEN * j) = hdr_at mem (ts_buf + TS_LEN * j)
    \<and> (\<exists>m1 n1 o1 m2 n2 o2.
          patch_ts g mem ts_buf (int j) = Inr (m1, n1, o1) \<and>
          patch_ts g mem (ts_buf + TS_LEN * Suc j) (n_ts - int j - 1) = Inr (m2, n2, o2) \<and>
          n = n1 + n2)"
proof -
  let ?q = "ts_buf + TS_LEN * j"
  have m: "mem' = patch_pure g ts_buf (nat n_ts) mem"
    by (rule patch_ts_result(1) [OF assms(1-3)])
  have h: "patch_hdr g (hdr_at mem ?q) = (hdr_at mem ?q, 0)"
    by (rule patch_hdr_not_listed [OF assms(6)])
  have hdr: "hdr_at mem' ?q = hdr_at mem ?q"
    unfolding m using hdr_at_patch_pure [OF assms(4,1), of g] h by simp
  have byte: "mem' ! (?q + k) = mem ! (?q + k)" if "k < TS_LEN" for k
    unfolding m nth_patch_pure_window [OF assms(4,1) that]
    using h by (simp add: nth_bytes_of_hdr_at)
  from patch_ts_count_window [OF assms(1-4)] h hdr byte show ?thesis
    by simp
qed

theorem patch_ts_keeps_unlisted_pid_witness:
  "patch_ts (globals_with [100]) two_packets 0 2 = Inr (two_packets_patched, 1, [])
   \<and> two_packets ! 188 = TS_SYNC
   \<and> get_pid (hdr_at two_packets 188) = 200
   \<and> two_packets_patched ! 189 = two_packets ! 189
   \<and> two_packets_patched ! 190 = two_packets ! 190
   \<and> hdr_at two_packets_patched 188 = hdr_at two_packets 188"
proof -
  have a1: "0 + TS_LEN * nat 2 \<le> length two_packets"
    by code_simp
  have a2: "filter_ok (globals_with [100])"
    by code_simp
  have a3: "patch_ts (globals_with [100]) two_packets 0 2 = Inr (two_packets_patched, 1, [])"
    by code_simp
  have a4: "1 < nat 2"
    by simp
  have a5: "two_packets ! (0 + TS_LEN * 1) = TS_SYNC"
    by code_simp
  have a6: "\<not> in_filter (globals_with [100]) (get_pid (hdr_at two_packets (0 + TS_LEN * 1)))"
    by code_simp
  have a7: "get_pid (hdr_at two_packets 188) = 200"
    by code_simp
  have q: "0 + TS_LEN * 1 = 188"
    by (simp add: TS_LEN_def)
  note r = patch_ts_keeps_unlisted_pid [OF a1 a2 a3 a4 a5 a6, unfolded q]
  from r have c1: "\<forall>k<TS_LEN. two_packets_patched ! (188 + k) = two_packets ! (188 + k)"
    and c2: "hdr_at two_packets_patched 188 = hdr_at two_packets 188"
    by blast+
  from c1 [rule_format, of 1] have c3: "two_packets_patched ! 189 = two_packets ! 189"
    by (simp add: TS_LEN_def)
  from c1 [rule_format, of 2] have c4: "two_packets_patched ! 190 = two_packets ! 190"
    by (simp add: TS_LEN_def)
  from a5 have c0: "two_packets ! 188 = TS_SYNC"
    by (simp only: q)
  from a3 c0 a7 c3 c4 c2 show ?thesis
    by (intro conjI)
qed




text \<open>
  C5. When 8191 is not in the filter set, running \<open>patch_ts\<close> a second time on
  the buffer it has produced, with the same filter set, gives the same buffer
  again and returns the count 0.
\<close>

theorem patch_ts_idempotent:
  assumes "ts_buf + TS_LEN * nat n_ts \<le> length mem" and "filter_ok g"
    and "\<not> in_filter g PID_NULL"
    and "patch_ts g mem ts_buf n_ts = Inr (mem', n, out)"
  shows "patch_ts g mem' ts_buf n_ts = Inr (mem', 0, out)"
proof -
  have m: "mem' = patch_pure g ts_buf (nat n_ts) mem"
    by (rule patch_ts_result(1) [OF assms(1,2,4)])
  have out: "out = replicate (sync_error_count ts_buf (nat n_ts) mem) sync_error_msg"
    by (rule patch_ts_result(3) [OF assms(1,2,4)])
  have len: "ts_buf + TS_LEN * nat n_ts \<le> length mem'"
    using assms(1) by (simp add: m patch_pure_length)
  from patch_pure_idem [OF assms(1,3)]
  have "patch_pure g ts_buf (nat n_ts) mem' = mem'"
    and "count_pure g ts_buf (nat n_ts) mem' = 0"
    by (simp_all add: m)
  moreover have "sync_error_count ts_buf (nat n_ts) mem' = sync_error_count ts_buf (nat n_ts) mem"
    by (simp add: m sync_error_count_patch_pure)
  ultimately show ?thesis
    using patch_ts_pure [OF len assms(2)] out by simp
qed

theorem patch_ts_idempotent_witness:
  "patch_ts (globals_with [100]) two_packets 0 2 = Inr (two_packets_patched, 1, [])
   \<and> patch_ts (globals_with [100]) two_packets_patched 0 2 = Inr (two_packets_patched, 0, [])"
proof -
  have a1: "0 + TS_LEN * nat 2 \<le> length two_packets"
    by code_simp
  have a2: "filter_ok (globals_with [100])"
    by code_simp
  have a3: "\<not> in_filter (globals_with [100]) PID_NULL"
    by code_simp
  have a4: "patch_ts (globals_with [100]) two_packets 0 2 = Inr (two_packets_patched, 1, [])"
    by code_simp
  from a4 patch_ts_idempotent [OF a1 a2 a3 a4] show ?thesis
    by (intro conjI)
qed




section \<open>A turn of the loop\<close>

lemma hdr_at_take: "q + 4 \<le> n \<Longrightarrow> hdr_at (take n xs) q = hdr_at xs q"
  by (simp add: hdr_at_def)

lemma frame_covers_length:
  assumes "0 \<le> n_in"
  shows "nat (n_in mod 188) + TS_LEN * nat (n_in div 188) = nat n_in"
proof -
  have "0 \<le> n_in mod 188" and "0 \<le> n_in div 188"
    using assms by (simp_all add: pos_imp_zdiv_nonneg_iff)
  then have "int (nat (n_in mod 188) + TS_LEN * nat (n_in div 188)) = n_in mod 188 + 188 * (n_in div 188)"
    by (simp add: TS_LEN_def)
  also have "\<dots> = n_in"
    by simp
  finally show ?thesis
    using assms by linarith
qed

lemma main_iteration_pure:
  assumes "filter_ok g" and "0 \<le> n_in" and "n_in \<le> int (length msgbuf)"
  shows "main_iteration g msgbuf n_in =
     Inr \<lparr>msgbuf_after = patch_pure g (nat (n_in mod 188)) (nat (n_in div 188)) msgbuf,
          sent = Some (take (nat n_in)
                   (patch_pure g (nat (n_in mod 188)) (nat (n_in div 188)) msgbuf)),
          n_ts_of = n_in div 188, ts_offset_of = n_in mod 188,
          patched_of = count_pure g (nat (n_in mod 188)) (nat (n_in div 188)) msgbuf,
          printed = replicate (sync_error_count (nat (n_in mod 188)) (nat (n_in div 188)) msgbuf)
                      sync_error_msg\<rparr>"
proof -
  have len: "nat (n_in mod 188) + TS_LEN * nat (n_in div 188) \<le> length msgbuf"
    using frame_covers_length [OF assms(2)] assms(3) by linarith
  have off: "0 \<le> n_in mod 188" "n_in mod 188 \<le> int (length msgbuf)"
    using assms(2,3) by (simp_all add: zmod_le_nonneg_dividend [THEN order_trans])
  show ?thesis
    using assms(2,3) off
    by (simp add: main_iteration_def main_frame_nonneg patch_ts_pure [OF len assms(1)]
        patch_pure_length)
qed

text \<open>
  C7. In a turn of the loop on a datagram of \<open>n_in\<close> bytes, a window whose
  first byte is not \<open>0x47\<close> is sent on as it was received, the turn does not
  stop there, so that a later window in sync with a listed PID still gets the
  PID 8191, and \<^verbatim>\<open>sendto\<close> is handed all \<open>n_in\<close> bytes, the leading bytes
  before the first window unchanged.
\<close>

theorem sync_error_does_not_abort:
  assumes "filter_ok g" and "0 \<le> n_in" and "n_in \<le> int (length msgbuf)"
  shows "\<exists>it s. main_iteration g msgbuf n_in = Inr it \<and> sent it = Some s
    \<and> length s = nat n_in
    \<and> (n_ts_of it, ts_offset_of it) = main_frame n_in
    \<and> (\<forall>i<nat (ts_offset_of it). s ! i = msgbuf ! i)
    \<and> (\<forall>j<nat (n_ts_of it). msgbuf ! (nat (ts_offset_of it) + TS_LEN * j) \<noteq> TS_SYNC \<longrightarrow>
          (\<forall>k<TS_LEN. s ! (nat (ts_offset_of it) + TS_LEN * j + k) =
                       msgbuf ! (nat (ts_offset_of it) + TS_LEN * j + k)))
    \<and> (\<forall>j<nat (n_ts_of it). msgbuf ! (nat (ts_offset_of it) + TS_LEN * j) = TS_SYNC \<and>
          in_filter g (get_pid (hdr_at msgbuf (nat (ts_offset_of it) + TS_LEN * j))) \<longrightarrow>
          get_pid (hdr_at s (nat (ts_offset_of it) + TS_LEN * j)) = PID_NULL)"
proof -
  let ?off = "nat (n_in mod 188)" and ?r = "nat (n_in div 188)"
  let ?p = "patch_pure g ?off ?r msgbuf"
  let ?s = "take (nat n_in) ?p"
  have cover: "?off + TS_LEN * ?r = nat n_in"
    by (rule frame_covers_length [OF assms(2)])
  have len: "?off + TS_LEN * ?r \<le> length msgbuf"
    using cover assms(3) by linarith
  have ls: "length ?s = nat n_in"
    using assms(3) by (simp add: patch_pure_length)
  have inside: "?off + TS_LEN * j + k < nat n_in" if "j < ?r" "k < TS_LEN" for j k
  proof -
    have "Suc j \<le> ?r"
      using that(1) by simp
    then have "TS_LEN * Suc j \<le> TS_LEN * ?r"
      by (rule mult_le_mono2)
    then show ?thesis
      using that(2) cover by simp
  qed
  have head: "?s ! i = msgbuf ! i" if "i < ?off" for i
  proof -
    have "i < nat n_in"
      using that cover by linarith
    then show ?thesis
      using that by (simp add: patch_pure_before)
  qed
  have broken: "?s ! (?off + TS_LEN * j + k) = msgbuf ! (?off + TS_LEN * j + k)"
    if "j < ?r" "msgbuf ! (?off + TS_LEN * j) \<noteq> TS_SYNC" "k < TS_LEN" for j k
  proof -
    have "patch_hdr g (hdr_at msgbuf (?off + TS_LEN * j)) = (hdr_at msgbuf (?off + TS_LEN * j), 0)"
      using that(2) by (simp add: patch_hdr_no_sync check_sync_hdr_at)
    then have "?p ! (?off + TS_LEN * j + k) = msgbuf ! (?off + TS_LEN * j + k)"
      unfolding nth_patch_pure_window [OF that(1) len that(3)]
      by (simp add: nth_bytes_of_hdr_at)
    then show ?thesis
      using inside [OF that(1,3)] by simp
  qed
  have listed: "get_pid (hdr_at ?s (?off + TS_LEN * j)) = PID_NULL"
    if "j < ?r" "msgbuf ! (?off + TS_LEN * j) = TS_SYNC"
      "in_filter g (get_pid (hdr_at msgbuf (?off + TS_LEN * j)))" for j
  proof -
    have "?off + TS_LEN * j + 3 < nat n_in"
      by (rule inside [OF that(1)]) (simp add: TS_LEN_def)
    then have "hdr_at ?s (?off + TS_LEN * j) = hdr_at ?p (?off + TS_LEN * j)"
      by (intro hdr_at_take) simp
    also have "\<dots> = fst (patch_hdr g (hdr_at msgbuf (?off + TS_LEN * j)))"
      by (rule hdr_at_patch_pure [OF that(1) len])
    also have "\<dots> = set_pid (hdr_at msgbuf (?off + TS_LEN * j)) PID_NULL"
      using that(2,3) by (simp add: patch_hdr_listed check_sync_hdr_at)
    finally show ?thesis
      by (simp add: get_pid_set_pid_null)
  qed
  let ?it = "\<lparr>msgbuf_after = ?p, sent = Some ?s, n_ts_of = n_in div 188,
      ts_offset_of = n_in mod 188, patched_of = count_pure g ?off ?r msgbuf,
      printed = replicate (sync_error_count ?off ?r msgbuf) sync_error_msg\<rparr>"
  have sel: "sent ?it = Some ?s" "n_ts_of ?it = n_in div 188" "ts_offset_of ?it = n_in mod 188"
    by simp_all
  have g1: "main_iteration g msgbuf n_in = Inr ?it"
    by (rule main_iteration_pure [OF assms])
  have g4: "(n_ts_of ?it, ts_offset_of ?it) = main_frame n_in"
    unfolding sel by (simp only: main_frame_nonneg [OF assms(2)])
  have g5: "\<forall>i<nat (ts_offset_of ?it). ?s ! i = msgbuf ! i"
    unfolding sel using head by blast
  have g6: "\<forall>j<nat (n_ts_of ?it). msgbuf ! (nat (ts_offset_of ?it) + TS_LEN * j) \<noteq> TS_SYNC \<longrightarrow>
          (\<forall>k<TS_LEN. ?s ! (nat (ts_offset_of ?it) + TS_LEN * j + k) =
                       msgbuf ! (nat (ts_offset_of ?it) + TS_LEN * j + k))"
    unfolding sel using broken by blast
  have g7: "\<forall>j<nat (n_ts_of ?it). msgbuf ! (nat (ts_offset_of ?it) + TS_LEN * j) = TS_SYNC \<and>
          in_filter g (get_pid (hdr_at msgbuf (nat (ts_offset_of ?it) + TS_LEN * j))) \<longrightarrow>
          get_pid (hdr_at ?s (nat (ts_offset_of ?it) + TS_LEN * j)) = PID_NULL"
    unfolding sel using listed by blast
  show ?thesis
    by (intro exI [of _ ?it] exI [of _ ?s] conjI g1 sel(1) ls g4 g5 g6 g7)
qed

theorem sync_error_does_not_abort_witness:
  "main_iteration (globals_with [100]) rtp_broken_sync 388 =
     Inr \<lparr>msgbuf_after = rtp_broken_sync_patched, sent = Some rtp_broken_sync_patched,
          n_ts_of = 2, ts_offset_of = 12, patched_of = 1, printed = [sync_error_msg]\<rparr>
   \<and> length rtp_broken_sync_patched = 388
   \<and> rtp_broken_sync ! 12 = 0x46
   \<and> rtp_broken_sync_patched ! 12 = rtp_broken_sync ! 12
   \<and> rtp_broken_sync_patched ! 13 = rtp_broken_sync ! 13
   \<and> rtp_broken_sync_patched ! 0 = rtp_broken_sync ! 0
   \<and> get_pid (hdr_at rtp_broken_sync 200) = 100
   \<and> get_pid (hdr_at rtp_broken_sync_patched 200) = PID_NULL"
proof -
  have a1: "filter_ok (globals_with [100])"
    by code_simp
  have a2: "(0::int) \<le> 388"
    by simp
  have a3: "388 \<le> int (length rtp_broken_sync)"
    by code_simp
  have e: "main_iteration (globals_with [100]) rtp_broken_sync 388 =
     Inr \<lparr>msgbuf_after = rtp_broken_sync_patched, sent = Some rtp_broken_sync_patched,
          n_ts_of = 2, ts_offset_of = 12, patched_of = 1, printed = [sync_error_msg]\<rparr>"
    by code_simp
  have b1: "rtp_broken_sync ! 12 = 0x46" "rtp_broken_sync ! (12 + TS_LEN * 0) \<noteq> TS_SYNC"
    by code_simp+
  have b2: "rtp_broken_sync ! (12 + TS_LEN * 1) = TS_SYNC"
    "in_filter (globals_with [100]) (get_pid (hdr_at rtp_broken_sync (12 + TS_LEN * 1)))"
    "get_pid (hdr_at rtp_broken_sync 200) = 100"
    by code_simp+
  from sync_error_does_not_abort [OF a1 a2 a3, unfolded e]
  have r: "length rtp_broken_sync_patched = nat 388"
    "\<forall>i<nat 12. rtp_broken_sync_patched ! i = rtp_broken_sync ! i"
    "\<forall>j<nat 2. rtp_broken_sync ! (nat 12 + TS_LEN * j) \<noteq> TS_SYNC \<longrightarrow>
          (\<forall>k<TS_LEN. rtp_broken_sync_patched ! (nat 12 + TS_LEN * j + k) =
                       rtp_broken_sync ! (nat 12 + TS_LEN * j + k))"
    "\<forall>j<nat 2. rtp_broken_sync ! (nat 12 + TS_LEN * j) = TS_SYNC \<and>
          in_filter (globals_with [100]) (get_pid (hdr_at rtp_broken_sync (nat 12 + TS_LEN * j))) \<longrightarrow>
          get_pid (hdr_at rtp_broken_sync_patched (nat 12 + TS_LEN * j)) = PID_NULL"
    by auto
  from r(1) have c1: "length rtp_broken_sync_patched = 388"
    by simp
  from r(2) [rule_format, of 0] have c2: "rtp_broken_sync_patched ! 0 = rtp_broken_sync ! 0"
    by simp
  from r(3) [rule_format, of 0 0] b1(2) have c3: "rtp_broken_sync_patched ! 12 = rtp_broken_sync ! 12"
    by (simp add: TS_LEN_def)
  from r(3) [rule_format, of 0 1] b1(2) have c4: "rtp_broken_sync_patched ! 13 = rtp_broken_sync ! 13"
    by (simp add: TS_LEN_def)
  from r(4) [rule_format, of 1] b2(1,2)
  have c5: "get_pid (hdr_at rtp_broken_sync_patched 200) = PID_NULL"
    by (simp add: TS_LEN_def)
  from e c1 b1(1) c3 c4 c2 b2(3) c5 show ?thesis
    by (intro conjI)
qed

text \<open>
  C8. With the filter count inside its array and \<open>n_in\<close> no more than the
  buffer holds, a turn of the loop ends without an access outside the buffer or
  the array, whatever \<open>n_in\<close> is, and so does \<open>patch_ts\<close> on any windows that
  lie inside the buffer. For \<open>0 \<le> n_in < 188\<close> the framing gives no packet and
  \<open>n_in\<close> leading bytes, \<open>patch_ts\<close> runs no iteration, and the buffer is sent
  as received.
\<close>

theorem framing_and_patching_total:
  assumes "filter_ok g" and "n_in \<le> int (length msgbuf)"
  shows "(\<exists>it. main_iteration g msgbuf n_in = Inr it)
    \<and> (\<forall>ts_buf n_ts. ts_buf + TS_LEN * nat n_ts \<le> length msgbuf \<longrightarrow>
          (\<exists>res. patch_ts g msgbuf ts_buf n_ts = Inr res))
    \<and> (0 \<le> n_in \<and> n_in < 188 \<longrightarrow>
          main_frame n_in = (0, n_in)
          \<and> patch_ts g msgbuf (nat n_in) 0 = Inr (msgbuf, 0, [])
          \<and> main_iteration g msgbuf n_in =
              Inr \<lparr>msgbuf_after = msgbuf, sent = Some (take (nat n_in) msgbuf), n_ts_of = 0,
                   ts_offset_of = n_in, patched_of = 0, printed = []\<rparr>)"
proof -
  have g1: "\<exists>it. main_iteration g msgbuf n_in = Inr it"
  proof (cases "n_in < 0")
    case True
    then show ?thesis
      by (simp add: main_iteration_def)
  next
    case False
    then have "0 \<le> n_in"
      by simp
    from main_iteration_pure [OF assms(1) this assms(2)] show ?thesis
      by (rule exI)
  qed
  have g2: "\<forall>ts_buf n_ts. ts_buf + TS_LEN * nat n_ts \<le> length msgbuf \<longrightarrow>
          (\<exists>res. patch_ts g msgbuf ts_buf n_ts = Inr res)"
    using patch_ts_pure [OF _ assms(1)] by blast
  have g3: "main_frame n_in = (0, n_in)
          \<and> patch_ts g msgbuf (nat n_in) 0 = Inr (msgbuf, 0, [])
          \<and> main_iteration g msgbuf n_in =
              Inr \<lparr>msgbuf_after = msgbuf, sent = Some (take (nat n_in) msgbuf), n_ts_of = 0,
                   ts_offset_of = n_in, patched_of = 0, printed = []\<rparr>"
    if "0 \<le> n_in" "n_in < 188"
  proof -
    have d: "n_in div 188 = 0" "n_in mod 188 = n_in"
      using that by simp_all
    have f: "main_frame n_in = (0, n_in)"
      using main_frame_nonneg [OF that(1)] by (simp only: d)
    have p: "patch_ts g msgbuf (nat n_in) 0 = Inr (msgbuf, 0, [])"
      by (simp add: patch_ts_def)
    have "main_iteration g msgbuf n_in =
        Inr \<lparr>msgbuf_after = msgbuf, sent = Some (take (nat n_in) msgbuf), n_ts_of = 0,
             ts_offset_of = n_in, patched_of = 0, printed = []\<rparr>"
      using main_iteration_pure [OF assms(1) that(1) assms(2)] unfolding d by simp
    with f p show ?thesis
      by (intro conjI)
  qed
  from g1 g2 g3 show ?thesis
    by blast
qed

theorem framing_and_patching_total_witness:
  "main_frame 3 = (0, 3)
   \<and> patch_ts (globals_with [100]) [0x47, 0x40, 0x64] 3 0 = Inr ([0x47, 0x40, 0x64], 0, [])
   \<and> main_iteration (globals_with [100]) [0x47, 0x40, 0x64] 3 =
       Inr \<lparr>msgbuf_after = [0x47, 0x40, 0x64], sent = Some [0x47, 0x40, 0x64], n_ts_of = 0,
            ts_offset_of = 3, patched_of = 0, printed = []\<rparr>"
proof -
  have a1: "filter_ok (globals_with [100])"
    by code_simp
  have a2: "3 \<le> int (length [0x47, 0x40, 0x64 :: byte])"
    by simp
  have a3: "(0::int) \<le> 3 \<and> (3::int) < 188"
    by simp
  from framing_and_patching_total [OF a1 a2] a3
  have "main_frame 3 = (0, 3)
     \<and> patch_ts (globals_with [100]) [0x47, 0x40, 0x64] (nat 3) 0 = Inr ([0x47, 0x40, 0x64], 0, [])
     \<and> main_iteration (globals_with [100]) [0x47, 0x40, 0x64] 3 =
       Inr \<lparr>msgbuf_after = [0x47, 0x40, 0x64], sent = Some (take (nat 3) [0x47, 0x40, 0x64]),
            n_ts_of = 0, ts_offset_of = 3, patched_of = 0, printed = []\<rparr>"
    by blast
  then show ?thesis
    by simp
qed

section \<open>The command line\<close>

lemma store_pids_fits:
  "Pid2PatchCount g = int c \<Longrightarrow> c + length as \<le> length (Pid2Patch g) \<Longrightarrow>
   \<exists>g'. store_pids as g = Inr g' \<and> Pid2PatchCount g' = int (c + length as) \<and>
        length (Pid2Patch g') = length (Pid2Patch g)"
proof (induction as arbitrary: g c)
  case Nil
  then show ?case by simp
next
  case (Cons a as)
  let ?g = "g\<lparr>Pid2Patch := (Pid2Patch g)[nat (Pid2PatchCount g) := word_of_int (atoi a)],
      Pid2PatchCount := Pid2PatchCount g + 1\<rparr>"
  have c: "Pid2PatchCount ?g = int (Suc c)"
    using Cons.prems(1) by simp
  have l: "Suc c + length as \<le> length (Pid2Patch ?g)"
    using Cons.prems(2) by simp
  from Cons.IH [OF c l] show ?case
    using Cons.prems by (simp add: Let_def)
qed

lemma store_pids_overflow:
  "Pid2PatchCount g = int c \<Longrightarrow> c \<le> length (Pid2Patch g) \<Longrightarrow>
   length (Pid2Patch g) < c + length as \<Longrightarrow>
   store_pids as g = Inl (OutOfBounds (int (length (Pid2Patch g))))"
proof (induction as arbitrary: g c)
  case Nil
  then show ?case by simp
next
  case (Cons a as)
  show ?case
  proof (cases "c < length (Pid2Patch g)")
    case True
    let ?g = "g\<lparr>Pid2Patch := (Pid2Patch g)[nat (Pid2PatchCount g) := word_of_int (atoi a)],
        Pid2PatchCount := Pid2PatchCount g + 1\<rparr>"
    have c: "Pid2PatchCount ?g = int (Suc c)"
      using Cons.prems(1) by simp
    have l: "Suc c \<le> length (Pid2Patch ?g)" "length (Pid2Patch ?g) < Suc c + length as"
      using True Cons.prems(3) by simp_all
    from Cons.IH [OF c l] show ?thesis
      using Cons.prems(1) True by (simp add: Let_def)
  next
    case False
    then have "c = length (Pid2Patch g)"
      using Cons.prems(2) by simp
    then show ?thesis
      using Cons.prems(1) by (simp add: Let_def)
  qed
qed

lemma parse_args_fits:
  assumes "5 \<le> length argv" and "length argv \<le> 105"
  shows "\<exists>g'. parse_args argv initial_globals = Inr g' \<and> filter_ok g' \<and>
       Pid2PatchCount g' = int (length argv) - 5 \<and> length (Pid2Patch g') = 100"
proof -
  let ?g = "initial_globals\<lparr>InputMCast := argv ! 1, InputPort := word_of_int (atoi (argv ! 2)),
      OutputMCast := argv ! 3, OutputPort := word_of_int (atoi (argv ! 4))\<rparr>"
  have c: "Pid2PatchCount ?g = int 0"
    by (simp add: initial_globals_def)
  have l: "0 + length (drop 5 argv) \<le> length (Pid2Patch ?g)"
    using assms by (simp add: initial_globals_def)
  from store_pids_fits [OF c l] obtain g' where
    "store_pids (drop 5 argv) ?g = Inr g'" "Pid2PatchCount g' = int (0 + length (drop 5 argv))"
    "length (Pid2Patch g') = length (Pid2Patch ?g)"
    by blast
  then show ?thesis
    using assms by (simp add: parse_args_def filter_ok_def initial_globals_def)
qed

lemma parse_args_overflow:
  assumes "105 < length argv"
  shows "parse_args argv initial_globals = Inl (OutOfBounds 100)"
proof -
  let ?g = "initial_globals\<lparr>InputMCast := argv ! 1, InputPort := word_of_int (atoi (argv ! 2)),
      OutputMCast := argv ! 3, OutputPort := word_of_int (atoi (argv ! 4))\<rparr>"
  have c: "Pid2PatchCount ?g = int 0"
    by (simp add: initial_globals_def)
  have l: "0 \<le> length (Pid2Patch ?g)" "length (Pid2Patch ?g) < 0 + length (drop 5 argv)"
    using assms by (simp_all add: initial_globals_def)
  from store_pids_overflow [OF c l] show ?thesis
    using assms by (simp add: parse_args_def initial_globals_def)
qed

lemma atoi_examples:
  "atoi ''100'' = 100" "atoi '' 8191x'' = 8191" "atoi ''-5'' = - 5" "atoi ''abc'' = 0"
  "atoi ''99999999999999999999'' = - 1" "atoi ''4294967396'' = 100"
  by code_simp+

lemma parse_args_example:
  "parse_args [''tspidfilter'', ''239.1.2.3'', ''5000'', ''239.3.2.1'', ''6000'', ''100'']
     initial_globals = Inr ((globals_with [100])\<lparr>OutputPort := 6000\<rparr>)"
  by code_simp

text \<open>
  C9, as the program behaves. \<^verbatim>\<open>parse_args\<close> stores one PID for every argument
  after the fourth and never looks at the size of \<^verbatim>\<open>Pid2Patch\<close>. With 101 PIDs
  on the command line the last one is written to \<^verbatim>\<open>Pid2Patch[100]\<close>, one past
  the end of the array of 100.
\<close>

theorem parse_args_writes_past_Pid2Patch:
  "parse_args
     ([''tspidfilter'', ''239.1.2.3'', ''5000'', ''239.3.2.1'', ''6000''] @ replicate 101 ''1'')
     initial_globals = Inl (OutOfBounds 100)"
  by (rule parse_args_overflow) simp

end
